theory Spec2Isabelle
  imports Complex_Main "HOL-Library.Log_Nat" "HOL-Library.Sublist"
begin

section \<open>Numbers and detections\<close>

text \<open>
  A JavaScript Number is an IEEE 754 binary64 value.  A finite Number is modelled by the
  rational it denotes, and every arithmetic operation of the source (\<open>+\<close>, \<open>-\<close>,
  \<open>*\<close>, \<open>/\<close>) and every decimal literal the code computes with is the exact value
  rounded to the nearest number with a 53-bit significand, ties to the even significand:
  \<open>fl\<close>.  The exponent range is not part of the model: it agrees with
  binary64 as long as no result overflows (a magnitude of 2 to the power 1024 or more)
  or falls into the subnormal range (below 2 to the power -1022).  NaN and the sign of
  zero are not modelled.
\<close>

text \<open>Rounding a rational to the nearest integer, a tie to the even neighbour.\<close>

definition round_even :: "rat \<Rightarrow> int" where
  "round_even q =
     (let f = \<lfloor>q\<rfloor>; r = q - of_int f
      in if r < 1 / 2 then f
         else if r > 1 / 2 then f + 1
         else if even f then f else f + 1)"

text \<open>
  The binary exponent of a non-zero rational, \<open>\<lfloor>log\<^sub>2 \<bar>x\<bar>\<rfloor>\<close>, from the bit lengths
  of numerator and denominator.
\<close>

definition expo :: "rat \<Rightarrow> int" where
  "expo x =
     (let (a, b) = quotient_of \<bar>x\<bar>;
          k = int (floorlog 2 (nat a)) - int (floorlog 2 (nat b))
      in if 2 powi k \<le> \<bar>x\<bar> then k else k - 1)"

definition fl :: "rat \<Rightarrow> rat" where
  "fl x =
     (if x = 0 then 0
      else (let ulp = 2 powi (expo x - 52)
            in of_int (round_even (x / ulp)) * ulp))"

text \<open>
  The values a Number can take (a 53-bit significand), and the magnitudes that stay
  clear of overflow and of the subnormal range through a few operations.
\<close>

definition is_double :: "rat \<Rightarrow> bool" where
  "is_double x \<longleftrightarrow> fl x = x"

definition in_range :: "rat \<Rightarrow> bool" where
  "in_range x \<longleftrightarrow> x = 0 \<or> (2 powi (- 1000) \<le> \<bar>x\<bar> \<and> \<bar>x\<bar> \<le> 2 powi 1000)"

text \<open>
  The one non-finite value the image code can produce is \<open>Infinity\<close>, from dividing a
  positive limit by a zero pixel dimension; it is kept as a value of its own so that
  \<open>Math.min\<close> treats it as JavaScript does.
\<close>

datatype jsnum = Finite rat | Infinity

fun js_div :: "rat \<Rightarrow> nat \<Rightarrow> jsnum" where
  "js_div a d = (if d = 0 then Infinity else Finite (fl (a / of_nat d)))"

fun js_min :: "jsnum \<Rightarrow> jsnum \<Rightarrow> jsnum" where
  "js_min (Finite a) (Finite b) = Finite (min a b)"
| "js_min (Finite a) Infinity = Finite a"
| "js_min Infinity b = b"

text \<open>\<open>Math.min\<close> of its arguments; of no argument it is \<open>Infinity\<close>.\<close>

definition Math_min :: "jsnum list \<Rightarrow> jsnum" where
  "Math_min xs = foldr js_min xs Infinity"

text \<open>Errors are \<open>new Error(message)\<close>: a value carrying its message.\<close>

datatype error = Error string

text \<open>
  One object shape serves both for the predictions of the detection service (where
  \<open>x\<close>, \<open>y\<close> are the centre of the box) and for the detections handed to the renderer
  (where they are its top-left corner): \<open>{x, y, width, height, confidence, class}\<close>.
  An object without a \<open>class\<close> property has \<open>det_class = None\<close>.
\<close>

record detection =
  det_x :: rat
  det_y :: rat
  det_width :: rat
  det_height :: rat
  det_confidence :: rat
  det_class :: "string option"

text \<open>The spatial fields of a detection: \<open>x\<close>, \<open>y\<close>, \<open>width\<close>, \<open>height\<close>.\<close>

definition spatial :: "detection \<Rightarrow> rat list" where
  "spatial d = [det_x d, det_y d, det_width d, det_height d]"

section \<open>src/imageProcessing.js: the hosted detection pipeline\<close>

definition CONFIDENCE_THRESHOLD :: rat where
  "CONFIDENCE_THRESHOLD = 0.50"

text \<open>The object literal of the \<open>.map\<close> callback: centre to top-left corner.\<close>

definition toTopLeft :: "detection \<Rightarrow> detection" where
  "toTopLeft p =
     \<lparr> det_x = fl (det_x p - fl (det_width p / 2)),
       det_y = fl (det_y p - fl (det_height p / 2)),
       det_width = det_width p,
       det_height = det_height p,
       det_confidence = det_confidence p,
       det_class = det_class p \<rparr>"

text \<open>
  The parsed response body.  \<open>predictions = None\<close> stands for a body without a
  \<open>predictions\<close> array (the guard \<open>apiResult?.predictions && Array.isArray(...)\<close>
  fails), in which case \<open>detections\<close> stays the empty array.
\<close>

record api_result =
  predictions :: "detection list option"

definition accepted :: "detection list \<Rightarrow> detection list" where
  "accepted ps = filter (\<lambda>p. det_confidence p \<ge> CONFIDENCE_THRESHOLD) ps"

definition detectionsOf :: "api_result \<Rightarrow> detection list" where
  "detectionsOf apiResult =
     (case predictions apiResult of
        None \<Rightarrow> []
      | Some ps \<Rightarrow> map toTopLeft (accepted ps))"

text \<open>
  What the browser does with an image element once its \<open>src\<close> is set: \<open>onload\<close>
  with the natural width and height, \<open>onerror\<close>, or neither before the timer fires.
  Widths and heights are the browser's unsigned integers, which binary64 holds exactly.
\<close>

datatype load_outcome = Loaded nat nat | LoadError | LoadTimeout

record jsfile =
  file_name :: string
  file_size :: nat
  file_type :: string
  file_lastModified :: nat
  file_bytes :: "nat list"

subsection \<open>callRoboflowAPI\<close>

text \<open>
  The outcome of \<open>fetch\<close> and of \<open>response.json()\<close>: the request fails, or a response
  arrives with its \<open>ok\<close> flag, status and a body.  The body does not parse
  (\<open>BadJson\<close>), or parses to something whose \<open>predictions\<close> is not an array of
  objects with numeric \<open>x\<close>, \<open>y\<close>, \<open>width\<close>, \<open>height\<close> (\<open>Unexpected\<close>: the logging
  loop raises a \<open>TypeError\<close> on it), or is a well-formed result.
\<close>

datatype response_body = BadJson | Unexpected | Json api_result

datatype fetch_outcome = NetworkFailure | Response bool nat response_body

text \<open>
  Every exception raised inside the \<open>try\<close> block (a rejected \<open>fetch\<close>, the
  \<open>API request failed\<close> error of a non-ok status, a body that is not JSON) is caught and
  replaced by one error.  The first component lists the values passed to the progress
  callback, in order.
\<close>

definition analyzeFailed :: error where
  "analyzeFailed = Error ''Failed to analyze image. Please try again.''"

definition callRoboflowAPI :: "fetch_outcome \<Rightarrow> rat list \<times> (error + api_result)" where
  "callRoboflowAPI fetched =
     (case fetched of
        NetworkFailure \<Rightarrow> ([fl 0.3], Inl analyzeFailed)
      | Response ok status body \<Rightarrow>
          if \<not> ok then ([fl 0.3], Inl analyzeFailed)
          else (case body of
                  BadJson \<Rightarrow> ([fl 0.3, fl 0.7], Inl analyzeFailed)
                | Unexpected \<Rightarrow> ([fl 0.3, fl 0.7], Inl analyzeFailed)
                | Json data \<Rightarrow> ([fl 0.3, fl 0.7, 1.0], Inr data)))"

subsection \<open>processAndDisplayImage\<close>

text \<open>
  The browser services the code calls, as functions of what they are given.  A canvas is
  described by its size and the image drawn on it; \<open>toBlob\<close> yields the encoded bytes
  or \<open>null\<close>; \<open>random k\<close> is the value of the \<open>k\<close>-th call of \<open>Math.random\<close>.
\<close>

record canvas =
  canvas_width :: nat
  canvas_height :: nat
  canvas_image :: string

record browser =
  createObjectURL :: "jsfile \<Rightarrow> string"
  loadImage :: "string \<Rightarrow> load_outcome"
  readAsDataURL :: "jsfile \<Rightarrow> string option"
  fetch :: "string \<Rightarrow> fetch_outcome"
  toBlob :: "canvas \<Rightarrow> string \<Rightarrow> rat \<Rightarrow> nat list option"
  now :: nat
  toISOString :: string
  random :: "nat \<Rightarrow> rat"

text \<open>
  \<open>fileToBase64\<close>: the data URL of the file without its prefix,
  \<open>base64.split(',')[1] || base64\<close>.  Without a comma the second piece is
  \<open>undefined\<close>, and an empty second piece is falsy: in both cases the whole string is
  kept.
\<close>

definition fileToBase64 :: "browser \<Rightarrow> jsfile \<Rightarrow> error + string" where
  "fileToBase64 b file' =
     (case readAsDataURL b file' of
        None \<Rightarrow> Inl (Error ''Failed to read file'')
      | Some base64 \<Rightarrow>
          (case dropWhile (\<lambda>c. c \<noteq> CHR '','') base64 of
             [] \<Rightarrow> Inr base64
           | comma # rest \<Rightarrow>
               (let second = takeWhile (\<lambda>c. c \<noteq> CHR '','') rest
                in Inr (if second = [] then base64 else second))))"

record result =
  originalImageUrl :: string
  originalWidth :: nat
  originalHeight :: nat
  detections :: "detection list"
  pillCount :: nat
  timestamp :: string

text \<open>
  \<open>if (onProgress) onProgress(percent, message)\<close>: one delivery when the caller gave a
  callback, none otherwise.
\<close>

definition report :: "bool \<Rightarrow> rat \<Rightarrow> string \<Rightarrow> (rat \<times> string) list" where
  "report onProgress percent message = (if onProgress then [(percent, message)] else [])"

text \<open>
  The first component is the sequence of \<open>(percent, message)\<close> pairs delivered to the
  caller's callback up to the terminal outcome, the second the outcome: the rejection
  error or the result object.
\<close>

definition processAndDisplayImage ::
  "browser \<Rightarrow> jsfile \<Rightarrow> bool \<Rightarrow> (rat \<times> string) list \<times> (error + result)" where
  "processAndDisplayImage b imageFile onProgress =
     (let log1 = report onProgress 10 ''Loading image...'';
          url = createObjectURL b imageFile
      in case loadImage b url of
           LoadError \<Rightarrow> (log1, Inl (Error ''Failed to load image''))
         | LoadTimeout \<Rightarrow> (log1, Inl (Error ''Image loading timeout''))
         | Loaded naturalWidth naturalHeight \<Rightarrow>
             (let log2 = log1 @ report onProgress 30 ''Preparing for analysis...''
              in case fileToBase64 b imageFile of
                   Inl err \<Rightarrow> (log2, Inl err)
                 | Inr base64Data \<Rightarrow>
                     (let log3 = log2 @ report onProgress 50 ''Detecting pills...'';
                          (ps, r) = callRoboflowAPI (fetch b base64Data);
                          log4 = log3 @ concat (map (\<lambda>progress.
                                   report onProgress (fl (50 + fl (progress * 40)))
                                     ''Detecting pills...'') ps)
                      in case r of
                           Inl err \<Rightarrow> (log4, Inl err)
                         | Inr apiResult \<Rightarrow>
                             (let log5 = log4 @ report onProgress 90 ''Finalizing results...'';
                                  ds = detectionsOf apiResult;
                                  log6 = log5 @ report onProgress 100 ''Complete!''
                              in (log6,
                                  Inr \<lparr> originalImageUrl = url,
                                        originalWidth = naturalWidth,
                                        originalHeight = naturalHeight,
                                        detections = ds,
                                        pillCount = length ds,
                                        timestamp = toISOString b \<rparr>)))))"


subsection \<open>validateAndCompressImage\<close>

definition MAX_FILE_SIZE :: nat where
  "MAX_FILE_SIZE = 10 * 1024 * 1024"

definition MAX_DIMENSION :: nat where
  "MAX_DIMENSION = 4096"

definition TooLarge :: error where
  "TooLarge = Error
     ''Image file is too large. Please try a closer photo or reduce image quality in camera settings.''"

text \<open>
  The calls the validator makes on the browser, in the order it makes them.  The quality
  handed to \<open>toBlob\<close> is recorded as the source writes it, \<open>0.92\<close>; nothing is computed
  from it.
\<close>

datatype effect =
  SetTimeout nat | ClearTimeout | CreateObjectURL | RevokeObjectURL
  | DrawImage nat nat | ToBlob string rat

text \<open>
  The size computation of the \<open>onload\<close> handler, with the limit as a parameter.  When
  \<open>needsResize\<close> holds one dimension is positive, so the minimum of the two ratios is
  finite; the \<open>Infinity\<close> branch only makes the function total.
\<close>

definition resizeWithin :: "nat \<Rightarrow> nat \<Rightarrow> nat \<Rightarrow> nat \<times> nat" where
  "resizeWithin maxDimension width height =
     (let needsResize = width > maxDimension \<or> height > maxDimension
      in if needsResize then
           (case Math_min [js_div (of_nat maxDimension) width,
                           js_div (of_nat maxDimension) height] of
              Finite scale \<Rightarrow>
                (nat \<lfloor>fl (of_nat width * scale)\<rfloor>, nat \<lfloor>fl (of_nat height * scale)\<rfloor>)
            | Infinity \<Rightarrow> (width, height))
         else (width, height))"

definition validateAndCompressImage ::
  "browser \<Rightarrow> jsfile \<Rightarrow> effect list \<times> (error + jsfile)" where
  "validateAndCompressImage b file' =
     (if file_size file' > MAX_FILE_SIZE then ([], Inl TooLarge)
      else
        (let started = [SetTimeout 30000, CreateObjectURL];
             url = createObjectURL b file'
         in case loadImage b url of
              LoadTimeout \<Rightarrow>
                (started @ [RevokeObjectURL],
                 Inl (Error ''Image loading timed out. Please try a smaller image.''))
            | LoadError \<Rightarrow>
                (started @ [ClearTimeout, RevokeObjectURL],
                 Inl (Error ''Failed to load image. Please try again.''))
            | Loaded imgWidth imgHeight \<Rightarrow>
                (let (width, height) = resizeWithin MAX_DIMENSION imgWidth imgHeight;
                     cv = \<lparr> canvas_width = width, canvas_height = height, canvas_image = url \<rparr>;
                     effects = started @ [ClearTimeout, DrawImage width height,
                                          ToBlob ''image/jpeg'' 0.92, RevokeObjectURL]
                 in case toBlob b cv ''image/jpeg'' 0.92 of
                      None \<Rightarrow> (effects, Inl (Error ''Failed to compress image''))
                    | Some blob \<Rightarrow>
                        (effects,
                         Inr \<lparr> file_name = file_name file',
                               file_size = length blob,
                               file_type = ''image/jpeg'',
                               file_lastModified = now b,
                               file_bytes = blob \<rparr>))))"

section \<open>src/old_ResultsDisplay.jsx: drawDetections\<close>

text \<open>
  The renderer of this file computes the centre of each detection again, as
  \<open>detection.x + detection.width / 2\<close> and \<open>detection.y + detection.height / 2\<close>.
\<close>

definition centerX :: "detection \<Rightarrow> rat" where
  "centerX detection = fl (det_x detection + fl (det_width detection / 2))"

definition centerY :: "detection \<Rightarrow> rat" where
  "centerY detection = fl (det_y detection + fl (det_height detection / 2))"

section \<open>App.jsx: handleImageCapture\<close>

text \<open>
  The sequence of states handed to \<open>setProgress\<close> during one capture: the two the
  handler sets itself, and between them and the end whatever the pipeline delivers to the
  callback \<open>(percent, message) => setProgress({ percent, message })\<close>.
\<close>

definition handleImageCapture_progress :: "browser \<Rightarrow> jsfile \<Rightarrow> (rat \<times> string) list" where
  "handleImageCapture_progress b file' =
     (let p0 = [(0, ''Starting...'')]
      in case snd (validateAndCompressImage b file') of
           Inl err \<Rightarrow> p0
         | Inr validatedFile \<Rightarrow>
             p0 @ [(20, ''Image validated'')]
                @ fst (processAndDisplayImage b validatedFile True))"

section \<open>files/imageProcessing.js: the pipeline with local downscaling\<close>

definition maxProcessingDimension :: nat where
  "maxProcessingDimension = 1024"

text \<open>
  \<open>Math.min(maxProcessingDimension / originalWidth, maxProcessingDimension /
  originalHeight, 1)\<close>, where \<open>originalWidth\<close> and \<open>originalHeight\<close> are the
  image's \<open>naturalWidth\<close> and \<open>naturalHeight\<close>.  The third argument makes the
  minimum finite.
\<close>

definition scaleOf :: "nat \<Rightarrow> nat \<Rightarrow> rat" where
  "scaleOf naturalWidth naturalHeight =
     (case Math_min [js_div (of_nat maxProcessingDimension) naturalWidth,
                     js_div (of_nat maxProcessingDimension) naturalHeight,
                     Finite 1] of
        Finite scale \<Rightarrow> scale
      | Infinity \<Rightarrow> 1)"

definition processedCanvas :: "string \<Rightarrow> nat \<Rightarrow> nat \<Rightarrow> canvas" where
  "processedCanvas url naturalWidth naturalHeight =
     (let scale = scaleOf naturalWidth naturalHeight
      in \<lparr> canvas_width = nat \<lfloor>fl (of_nat naturalWidth * scale)\<rfloor>,
           canvas_height = nat \<lfloor>fl (of_nat naturalHeight * scale)\<rfloor>,
           canvas_image = url \<rparr>)"

text \<open>
  The object literal that maps a detection back to the original image.  It has no
  \<open>class\<close> property.
\<close>

definition scaleDetection :: "rat \<Rightarrow> detection \<Rightarrow> detection" where
  "scaleDetection scale detection =
     \<lparr> det_x = fl (det_x detection / scale),
       det_y = fl (det_y detection / scale),
       det_width = fl (det_width detection / scale),
       det_height = fl (det_height detection / scale),
       det_confidence = det_confidence detection,
       det_class = None \<rparr>"

text \<open>
  The placeholder detector: \<open>numPills\<close> random boxes on the canvas, with one progress
  call after each.  The first \<open>Math.random\<close> call fixes \<open>numPills\<close>, the next five
  belong to the first box, and so on.  The loop counter and \<open>i + 1\<close> are small
  integers, exact in binary64.
\<close>

definition mockDetection :: "(nat \<Rightarrow> rat) \<Rightarrow> canvas \<Rightarrow> nat \<Rightarrow> detection" where
  "mockDetection rnd cv i =
     \<lparr> det_x = fl (rnd (5 * i + 1) * of_nat (canvas_width cv)),
       det_y = fl (rnd (5 * i + 2) * of_nat (canvas_height cv)),
       det_width = fl (30 + fl (rnd (5 * i + 3) * 20)),
       det_height = fl (30 + fl (rnd (5 * i + 4) * 20)),
       det_confidence = fl (fl 0.85 + fl (rnd (5 * i + 5) * fl 0.15)),
       det_class = None \<rparr>"

definition runPillDetection :: "(nat \<Rightarrow> rat) \<Rightarrow> canvas \<Rightarrow> rat list \<times> detection list" where
  "runPillDetection rnd cv =
     (let numPills = \<lfloor>fl (rnd 0 * 20)\<rfloor> + 5
      in (map (\<lambda>i. fl ((of_nat i + 1) / of_int numPills)) [0..<nat numPills],
          map (mockDetection rnd cv) [0..<nat numPills]))"

record result_files = result +
  processingScale :: rat

definition processAndDisplayImage_files ::
  "browser \<Rightarrow> jsfile \<Rightarrow> bool \<Rightarrow> (rat \<times> string) list \<times> (error + result_files)" where
  "processAndDisplayImage_files b imageFile onProgress =
     (let log1 = report onProgress 10 ''Loading image...'';
          url = createObjectURL b imageFile
      in case loadImage b url of
           LoadError \<Rightarrow> (log1, Inl (Error ''Failed to load image''))
         | LoadTimeout \<Rightarrow> (log1, Inl (Error ''Image loading timeout''))
         | Loaded naturalWidth naturalHeight \<Rightarrow>
             (let log2 = log1 @ report onProgress 30 ''Preparing for analysis...'';
                  scale = scaleOf naturalWidth naturalHeight;
                  cv = processedCanvas url naturalWidth naturalHeight;
                  log3 = log2 @ report onProgress 50 ''Detecting pills...'';
                  (ps, ds) = runPillDetection (random b) cv;
                  log4 = log3 @ concat (map (\<lambda>progress.
                           report onProgress (fl (50 + fl (progress * fl 0.4)))
                             ''Detecting pills...'') ps);
                  log5 = log4 @ report onProgress 90 ''Finalizing results...'';
                  scaledDetections = map (scaleDetection scale) ds;
                  log6 = log5 @ report onProgress 100 ''Complete!''
              in (log6,
                  Inr \<lparr> originalImageUrl = url,
                        originalWidth = naturalWidth,
                        originalHeight = naturalHeight,
                        detections = scaledDetections,
                        pillCount = length scaledDetections,
                        timestamp = toISOString b,
                        processingScale = scale \<rparr>)))"

section \<open>Example inputs\<close>

text \<open>
  A browser in which everything succeeds: a 3024 by 4032 photograph loads, the service
  answers with ten predictions, the encoder returns three bytes, and \<open>Math.random\<close>
  returns \<open>0\<close> (so the placeholder detector makes five boxes).
\<close>

definition examplePrediction :: "rat \<Rightarrow> rat \<Rightarrow> detection" where
  "examplePrediction k c =
     \<lparr> det_x = 100 * k, det_y = 50 * k, det_width = 40, det_height = 30,
       det_confidence = c, det_class = Some ''pill'' \<rparr>"

definition examplePredictions :: "detection list" where
  "examplePredictions =
     [examplePrediction 1 0.9, examplePrediction 2 0.4, examplePrediction 3 0.5,
      examplePrediction 4 0.51, examplePrediction 5 0.0, examplePrediction 6 1.0,
      examplePrediction 7 0.49, examplePrediction 8 0.6, examplePrediction 9 0.3,
      examplePrediction 10 0.8]"

definition exampleBrowser :: browser where
  "exampleBrowser =
     \<lparr> createObjectURL = (\<lambda>_. ''blob:example''),
       loadImage = (\<lambda>_. Loaded 3024 4032),
       readAsDataURL = (\<lambda>_. Some ''data:image/png;base64,iVBORw==''),
       fetch = (\<lambda>_. Response True 200 (Json \<lparr> predictions = Some examplePredictions \<rparr>)),
       toBlob = (\<lambda>_ _ _. Some [255, 216, 255]),
       now = 1700000000000,
       toISOString = ''2026-01-01T00:00:00.000Z'',
       random = (\<lambda>_. 0) \<rparr>"

definition examplePhoto :: jsfile where
  "examplePhoto =
     \<lparr> file_name = ''photo.png'', file_size = 4, file_type = ''image/png'',
       file_lastModified = 1600000000000, file_bytes = [137, 80, 78, 71] \<rparr>"

definition oversizedPhoto :: jsfile where
  "oversizedPhoto = examplePhoto \<lparr> file_size := 10485761 \<rparr>"

text \<open>
  A box on the detection canvas, and a prediction whose centre and width are the Numbers
  written \<open>100.3\<close> and \<open>40.7\<close>.
\<close>

definition exampleDetection :: detection where
  "exampleDetection =
     \<lparr> det_x = 100, det_y = 50, det_width = 30, det_height = 40,
       det_confidence = 1, det_class = None \<rparr>"

definition inexactPrediction :: detection where
  "inexactPrediction =
     \<lparr> det_x = 7057985041019699 / 70368744177664, det_y = 50,
       det_width = 2864007888030925 / 70368744177664, det_height = 30,
       det_confidence = 1, det_class = Some ''pill'' \<rparr>"

section \<open>Rounding to binary64\<close>

lemma round_even_of_int [simp]: "round_even (of_int n) = n"
  by (simp add: round_even_def)

lemma round_even_cases:
  "round_even q = \<lfloor>q\<rfloor> \<or> round_even q = \<lfloor>q\<rfloor> + 1"
  by (simp add: round_even_def Let_def)

lemma round_even_error: "\<bar>of_int (round_even q) - q\<bar> \<le> 1 / 2"
proof -
  define r where "r = q - of_int \<lfloor>q\<rfloor>"
  have r: "0 \<le> r" "r < 1" unfolding r_def by linarith+
  have q: "q = of_int \<lfloor>q\<rfloor> + r" unfolding r_def by simp
  consider "r < 1 / 2" | "r > 1 / 2" | "r = 1 / 2" by linarith
  then show ?thesis
  proof cases
    case 1
    then have "round_even q = \<lfloor>q\<rfloor>" by (simp add: round_even_def Let_def r_def)
    with 1 r q show ?thesis by simp
  next
    case 2
    then have "round_even q = \<lfloor>q\<rfloor> + 1" by (simp add: round_even_def Let_def r_def)
    then have "of_int (round_even q) - q = 1 - r" using q by simp
    with 2 r show ?thesis by simp
  next
    case 3
    then have "round_even q = \<lfloor>q\<rfloor> \<or> round_even q = \<lfloor>q\<rfloor> + 1"
      by (rule_tac round_even_cases)
    then have "of_int (round_even q) - q = - r \<or> of_int (round_even q) - q = 1 - r"
      using q by auto
    with 3 show ?thesis by auto
  qed
qed

lemma round_even_mono:
  assumes "q \<le> q'"
  shows "round_even q \<le> round_even q'"
proof (cases "\<lfloor>q\<rfloor> = \<lfloor>q'\<rfloor>")
  case True
  with assms show ?thesis
    by (auto simp: round_even_def Let_def)
next
  case False
  with assms have "\<lfloor>q\<rfloor> < \<lfloor>q'\<rfloor>"
    using floor_mono [of q q'] by linarith
  moreover have "round_even q \<le> \<lfloor>q\<rfloor> + 1" "\<lfloor>q'\<rfloor> \<le> round_even q'"
    using round_even_cases [of q] round_even_cases [of q'] by auto
  ultimately show ?thesis by linarith
qed

lemma round_even_minus: "round_even (- q) = - round_even q"
proof (cases "q = of_int \<lfloor>q\<rfloor>")
  case True
  then obtain n where "q = of_int n" ..
  then have "round_even (- q) = round_even (of_int (- n))" by simp
  also have "\<dots> = - n" by (rule round_even_of_int)
  finally show ?thesis using \<open>q = of_int n\<close> by simp
next
  case False
  define f where "f = \<lfloor>q\<rfloor>"
  define r where "r = q - of_int f"
  have "\<lceil>q\<rceil> = f + 1" using False by (simp add: ceiling_altdef f_def)
  then have f': "\<lfloor>- q\<rfloor> = - f - 1" by (simp add: ceiling_def)
  have r': "- q - of_int (- f - 1) = 1 - r" by (simp add: r_def)
  have e: "even (- f - 1) \<longleftrightarrow> odd f" by simp
  have p: "round_even q = (if r < 1 / 2 then f else if r > 1 / 2 then f + 1
                           else if even f then f else f + 1)"
    by (simp add: round_even_def Let_def f_def r_def)
  have m: "round_even (- q) = (if 1 - r < 1 / 2 then - f - 1 else if 1 - r > 1 / 2 then - f
                           else if odd f then - f - 1 else - f)"
    unfolding round_even_def Let_def f' r' e by simp
  consider "r < 1 / 2" | "r > 1 / 2" | "r = 1 / 2" by linarith
  then show ?thesis
  proof cases
    case 1 then show ?thesis unfolding p m by simp
  next
    case 2 then show ?thesis unfolding p m by simp
  next
    case 3 then show ?thesis unfolding p m by simp
  qed
qed

lemma expo_bounds:
  assumes "x \<noteq> 0"
  shows "2 powi expo x \<le> \<bar>x\<bar> \<and> \<bar>x\<bar> < 2 powi (expo x + 1)"
proof -
  obtain a b where ab: "quotient_of \<bar>x\<bar> = (a, b)" by (cases "quotient_of \<bar>x\<bar>")
  define la where "la = floorlog 2 (nat a)"
  define lb where "lb = floorlog 2 (nat b)"
  define k where "k = int la - int lb"
  have b: "0 < b" using ab by (rule quotient_of_denom_pos)
  have x: "\<bar>x\<bar> = of_int a / of_int b" using ab by (rule quotient_of_div)
  have a: "0 < a"
  proof (rule ccontr)
    assume "\<not> 0 < a"
    then have "of_int a / (of_int b :: rat) \<le> 0" using b by (simp add: divide_le_0_iff)
    with x assms show False by simp
  qed
  have na: "2 ^ (la - 1) \<le> nat a" "nat a < 2 ^ la"
    using floorlog_bounds [of "nat a" 2] a by (simp_all add: la_def)
  have nb: "2 ^ (lb - 1) \<le> nat b" "nat b < 2 ^ lb"
    using floorlog_bounds [of "nat b" 2] b by (simp_all add: lb_def)
  have la: "0 < la" using a by (simp add: la_def floorlog_def)
  have lb: "0 < lb" using b by (simp add: lb_def floorlog_def)
  define A B P Q :: rat where "A = of_int a" and "B = of_int b" and "P = 2 ^ la" and "Q = 2 ^ lb"
  have pos: "0 < A" "0 < B" "0 < P" "0 < Q" using a b by (simp_all add: A_def B_def P_def Q_def)
  have "(2::nat) ^ la = 2 * 2 ^ (la - 1)" using la by (cases la) simp_all
  with na(1) have "2 ^ la \<le> 2 * nat a" by simp
  then have "(of_nat (2 ^ la) :: rat) \<le> of_nat (2 * nat a)" by (rule of_nat_mono)
  then have PA: "P \<le> 2 * A" using a by (simp add: P_def A_def)
  have "(of_nat (nat a) :: rat) < of_nat (2 ^ la)" using na(2) by (simp only: of_nat_less_iff)
  then have AP: "A < P" using a by (simp add: P_def A_def)
  have "(2::nat) ^ lb = 2 * 2 ^ (lb - 1)" using lb by (cases lb) simp_all
  with nb(1) have "2 ^ lb \<le> 2 * nat b" by simp
  then have "(of_nat (2 ^ lb) :: rat) \<le> of_nat (2 * nat b)" by (rule of_nat_mono)
  then have QB: "Q \<le> 2 * B" using b by (simp add: Q_def B_def)
  have "(of_nat (nat b) :: rat) < of_nat (2 ^ lb)" using nb(2) by (simp only: of_nat_less_iff)
  then have BQ: "B < Q" using b by (simp add: Q_def B_def)
  have k0: "2 powi k = P / Q"
    unfolding k_def by (subst power_int_diff) (simp_all add: P_def Q_def)
  have k1: "2 powi (k + 1) = 2 * P / Q"
    by (subst power_int_add_1) (simp_all add: k0)
  have km: "2 powi (k - 1) = P / (2 * Q)"
    by (subst power_int_diff) (simp_all add: k0)
  have up: "A / B < 2 * P / Q"
  proof -
    have "A * Q < P * Q" using AP pos by simp
    also have "\<dots> \<le> P * (2 * B)" using QB pos by simp
    finally show ?thesis using pos by (simp add: field_simps)
  qed
  have lo: "P / (2 * Q) \<le> A / B"
  proof -
    have "P * B \<le> 2 * A * B" using PA pos by simp
    also have "\<dots> \<le> 2 * A * Q" using BQ pos by simp
    finally show ?thesis using pos by (simp add: field_simps)
  qed
  have e: "expo x = (if 2 powi k \<le> \<bar>x\<bar> then k else k - 1)"
    by (simp add: expo_def ab Let_def k_def la_def lb_def)
  show ?thesis
  proof (cases "2 powi k \<le> \<bar>x\<bar>")
    case True
    with e up show ?thesis by (simp add: k1 x A_def B_def)
  next
    case False
    then have "expo x = k - 1" using e by simp
    with False lo show ?thesis by (simp add: km x A_def B_def)
  qed
qed

lemma pow2_le_abs_nonzero:
  assumes "2 powi e \<le> \<bar>x::rat\<bar>"
  shows "x \<noteq> 0"
proof
  assume "x = 0"
  then have "(2::rat) powi e \<le> 0" using assms by simp
  moreover have "(0::rat) < 2 powi e" by simp
  ultimately show False by linarith
qed

lemma expo_unique:
  assumes "2 powi e \<le> \<bar>x\<bar>" and "\<bar>x\<bar> < 2 powi (e + 1)"
  shows "expo x = e"
proof -
  have nz: "x \<noteq> 0" using assms(1) by (rule pow2_le_abs_nonzero)
  note b = expo_bounds [OF nz]
  have "\<not> e + 1 \<le> expo x"
  proof
    assume "e + 1 \<le> expo x"
    then have "(2::rat) powi (e + 1) \<le> 2 powi expo x" by (intro power_int_increasing) simp_all
    with b assms(2) show False by linarith
  qed
  moreover have "\<not> expo x + 1 \<le> e"
  proof
    assume "expo x + 1 \<le> e"
    then have "(2::rat) powi (expo x + 1) \<le> 2 powi e" by (intro power_int_increasing) simp_all
    with b assms(1) show False by linarith
  qed
  ultimately show ?thesis by linarith
qed

lemma fl_zero [simp]: "fl 0 = 0"
  by (simp add: fl_def)

lemma fl_eval:
  assumes "2 powi e \<le> \<bar>x\<bar>" and "\<bar>x\<bar> < 2 powi (e + 1)"
  shows "fl x = of_int (round_even (x / 2 powi (e - 52))) * 2 powi (e - 52)"
proof -
  have "x \<noteq> 0" using assms(1) by (rule pow2_le_abs_nonzero)
  moreover have "expo x = e" using assms by (rule expo_unique)
  ultimately show ?thesis by (simp add: fl_def Let_def)
qed

lemma expo_minus [simp]: "expo (- x) = expo x"
  by (simp add: expo_def)

lemma fl_minus: "fl (- x) = - fl x"
  by (simp add: fl_def Let_def round_even_minus)

lemma pow2_split: "(2::rat) powi e = 2 ^ 52 * 2 powi (e - 52)"
proof -
  have "(2::rat) powi e = 2 powi (52 + (e - 52))" by simp
  also have "\<dots> = 2 powi 52 * 2 powi (e - 52)" by (rule power_int_add) simp
  finally show ?thesis by simp
qed

lemma fl_error: "\<bar>fl x - x\<bar> \<le> \<bar>x\<bar> / 2 ^ 53"
proof (cases "x = 0")
  case True
  then show ?thesis by simp
next
  case False
  define u :: rat where "u = 2 powi (expo x - 52)"
  have u: "0 < u" by (simp add: u_def)
  have f: "fl x = of_int (round_even (x / u)) * u"
    using False by (simp add: fl_def Let_def u_def)
  have "fl x - x = (of_int (round_even (x / u)) - x / u) * u"
    using u by (simp add: f field_simps)
  then have "\<bar>fl x - x\<bar> = \<bar>of_int (round_even (x / u)) - x / u\<bar> * u"
    using u by (simp add: abs_mult)
  also have "\<dots> \<le> 1 / 2 * u"
    using round_even_error [of "x / u"] u by (intro mult_right_mono) simp_all
  also have "\<dots> = 2 powi expo x / 2 ^ 53"
    by (simp add: pow2_split [of "expo x"] u_def)
  also have "\<dots> \<le> \<bar>x\<bar> / 2 ^ 53"
    using expo_bounds [OF False] by (intro divide_right_mono) simp_all
  finally show ?thesis .
qed

lemma fl_range:
  assumes "0 < x"
  shows "2 powi expo x \<le> fl x \<and> fl x \<le> 2 powi (expo x + 1)"
proof -
  define u :: rat where "u = 2 powi (expo x - 52)"
  have u: "0 < u" by (simp add: u_def)
  have nz: "x \<noteq> 0" using assms by simp
  have f: "fl x = of_int (round_even (x / u)) * u"
    using nz by (simp add: fl_def Let_def u_def)
  have b: "2 ^ 52 * u \<le> x" "x < 2 ^ 53 * u"
    using expo_bounds [OF nz] assms
    by (simp_all add: pow2_split [of "expo x"] power_int_add_1 u_def)
  have "(2::rat) ^ 52 \<le> x / u" using b(1) u by (simp add: field_simps)
  then have "round_even (of_int (2 ^ 52)) \<le> round_even (x / u)"
    by (intro round_even_mono) simp
  then have lo: "(2::int) ^ 52 \<le> round_even (x / u)" by (simp only: round_even_of_int)
  have "x / u \<le> 2 ^ 53" using b(2) u by (simp add: field_simps)
  then have "round_even (x / u) \<le> round_even (of_int (2 ^ 53))"
    by (intro round_even_mono) simp
  then have hi: "round_even (x / u) \<le> (2::int) ^ 53" by (simp only: round_even_of_int)
  have "(of_int (2 ^ 52) :: rat) \<le> of_int (round_even (x / u))" using lo by (simp only: of_int_le_iff)
  then have "2 ^ 52 * u \<le> fl x" unfolding f using u by (intro mult_right_mono) simp_all
  moreover have "(of_int (round_even (x / u)) :: rat) \<le> of_int (2 ^ 53)" using hi by (simp only: of_int_le_iff)
  then have "fl x \<le> 2 ^ 53 * u" unfolding f using u by (intro mult_right_mono) simp_all
  ultimately show ?thesis
    by (simp add: pow2_split [of "expo x"] power_int_add_1 u_def)
qed

lemma fl_pos: "0 < x \<Longrightarrow> 0 < fl x"
proof -
  assume "0 < x"
  then have "2 powi expo x \<le> fl x" using fl_range by blast
  moreover have "(0::rat) < 2 powi expo x" by simp
  ultimately show ?thesis by linarith
qed

lemma fl_nonneg: "0 \<le> x \<Longrightarrow> 0 \<le> fl x"
  using fl_pos [of x] by (cases "x = 0") (simp_all add: less_le)

lemma expo_mono:
  assumes "0 < x" and "x \<le> y"
  shows "expo x \<le> expo y"
proof (rule ccontr)
  assume "\<not> expo x \<le> expo y"
  then have "expo y + 1 \<le> expo x" by simp
  then have "(2::rat) powi (expo y + 1) \<le> 2 powi expo x" by (intro power_int_increasing) simp_all
  moreover have "y < 2 powi (expo y + 1)" using expo_bounds [of y] assms by simp
  moreover have "2 powi expo x \<le> x" using expo_bounds [of x] assms by simp
  ultimately show False using assms by linarith
qed

lemma fl_mono_pos:
  assumes "0 < x" and "x \<le> y"
  shows "fl x \<le> fl y"
proof (cases "expo x = expo y")
  case True
  define u :: rat where "u = 2 powi (expo y - 52)"
  have u: "0 < u" by (simp add: u_def)
  have "x / u \<le> y / u" using assms u by (simp add: divide_right_mono)
  then have "round_even (x / u) \<le> round_even (y / u)" by (rule round_even_mono)
  then have "(of_int (round_even (x / u)) :: rat) \<le> of_int (round_even (y / u))"
    by (simp only: of_int_le_iff)
  then have "of_int (round_even (x / u)) * u \<le> of_int (round_even (y / u)) * u"
    using u by (intro mult_right_mono) simp_all
  then show ?thesis using assms True by (simp add: fl_def Let_def u_def)
next
  case False
  with expo_mono [OF assms] have "expo x + 1 \<le> expo y" by simp
  then have "(2::rat) powi (expo x + 1) \<le> 2 powi expo y" by (intro power_int_increasing) simp_all
  moreover have "fl x \<le> 2 powi (expo x + 1)" using fl_range [of x] assms by simp
  moreover have "2 powi expo y \<le> fl y" using fl_range [of y] assms by simp
  ultimately show ?thesis by linarith
qed

lemma fl_mono:
  assumes "x \<le> y"
  shows "fl x \<le> fl y"
proof -
  consider "0 < x" | "x \<le> 0" "0 \<le> y" | "y < 0" by linarith
  then show ?thesis
  proof cases
    case 1
    then show ?thesis using assms by (rule fl_mono_pos)
  next
    case 2
    have "fl x \<le> 0" using fl_nonneg [of "- x"] 2(1) by (simp add: fl_minus)
    moreover have "0 \<le> fl y" using 2(2) by (rule fl_nonneg)
    ultimately show ?thesis by linarith
  next
    case 3
    then have "fl (- y) \<le> fl (- x)" using assms by (intro fl_mono_pos) simp_all
    then show ?thesis by (simp add: fl_minus)
  qed
qed

lemma fl_half: "fl (x / 2) = fl x / 2"
proof (cases "x = 0")
  case True
  then show ?thesis by simp
next
  case False
  define e where "e = expo x"
  have b: "2 powi e \<le> \<bar>x\<bar>" "\<bar>x\<bar> < 2 powi (e + 1)"
    using expo_bounds [OF False] by (simp_all add: e_def)
  have p: "(2::rat) powi e = 2 * 2 powi (e - 1)"
    using power_int_minus_mult [of "2::rat" e] by simp
  have q: "(2::rat) powi (e - 52) = 2 * 2 powi (e - 1 - 52)"
    using power_int_minus_mult [of "2::rat" "e - 52"] by (simp add: algebra_simps)
  have "2 powi (e - 1) \<le> \<bar>x / 2\<bar>" using b(1) by (simp add: p)
  moreover have "\<bar>x / 2\<bar> < 2 powi (e - 1 + 1)" using b(2) by (simp add: power_int_add_1)
  ultimately have h: "fl (x / 2)
      = of_int (round_even (x / 2 / 2 powi (e - 1 - 52))) * 2 powi (e - 1 - 52)"
    by (rule fl_eval)
  have f: "fl x = of_int (round_even (x / 2 powi (e - 52))) * 2 powi (e - 52)"
    using b by (rule fl_eval)
  have "x / 2 / 2 powi (e - 1 - 52) = x / 2 powi (e - 52)" by (simp add: q)
  then show ?thesis unfolding h f by (simp add: q)
qed

lemma fl_idem: "fl (fl x) = fl x"
proof -
  have pos: "fl (fl y) = fl y" if "0 < y" for y
  proof -
    define e where "e = expo y"
    define u :: rat where "u = 2 powi (e - 52)"
    define n where "n = round_even (y / u)"
    have u: "0 < u" by (simp add: u_def)
    have f: "fl y = of_int n * u" using that by (simp add: fl_def Let_def u_def e_def n_def)
    have r: "2 powi e \<le> fl y" "fl y \<le> 2 powi (e + 1)"
      using fl_range [OF that] by (simp_all add: e_def)
    have fp: "0 < fl y" using that by (rule fl_pos)
    show ?thesis
    proof (cases "fl y < 2 powi (e + 1)")
      case True
      have "fl (fl y) = of_int (round_even (fl y / 2 powi (e - 52))) * 2 powi (e - 52)"
        using r(1) True fp by (intro fl_eval) simp_all
      also have "fl y / 2 powi (e - 52) = of_int n" using u by (simp add: f u_def [symmetric])
      finally show ?thesis by (simp add: f u_def)
    next
      case False
      with r(2) have eq: "fl y = 2 powi (e + 1)" by simp
      have "(2::rat) powi (e + 1) < 2 powi (e + 1 + 1)"
        by (intro power_int_strict_increasing) simp_all
      then have "fl (fl y) = of_int (round_even (fl y / 2 powi (e + 1 - 52))) * 2 powi (e + 1 - 52)"
        using fp by (intro fl_eval) (simp_all add: eq)
      also have "fl y / 2 powi (e + 1 - 52) = of_int (2 ^ 52)"
        unfolding eq using pow2_split [of "e + 1"] by simp
      finally show ?thesis
        using pow2_split [of "e + 1"] by (simp only: round_even_of_int eq) simp
    qed
  qed
  consider "0 < x" | "x = 0" | "x < 0" by linarith
  then show ?thesis
  proof cases
    case 1 then show ?thesis by (rule pos)
  next
    case 2 then show ?thesis by simp
  next
    case 3
    then have "fl (fl (- x)) = fl (- x)" by (intro pos) simp
    then show ?thesis by (simp add: fl_minus)
  qed
qed

lemma round_even_divide:
  assumes "0 < b"
  shows "round_even (of_int a / of_int b) =
           (if 2 * (a mod b) < b then a div b
            else if 2 * (a mod b) > b then a div b + 1
            else if even (a div b) then a div b else a div b + 1)"
proof -
  have f: "\<lfloor>of_int a / (of_int b :: rat)\<rfloor> = a div b" by (rule floor_divide_of_int_eq)
  have "a mod b = a - a div b * b" by (simp add: minus_div_mult_eq_mod)
  then have m: "(of_int (a mod b) :: rat) = of_int a - of_int (a div b) * of_int b"
    by (simp only: of_int_diff of_int_mult)
  have r: "of_int a / (of_int b :: rat) - of_int (a div b) = of_int (a mod b) / of_int b"
    unfolding m using assms by (simp add: field_simps)
  have lt: "of_int (a mod b) / (of_int b :: rat) < 1 / 2 \<longleftrightarrow> 2 * (a mod b) < b"
  proof -
    have "of_int (a mod b) / (of_int b :: rat) < 1 / 2 \<longleftrightarrow> (of_int (2 * (a mod b)) :: rat) < of_int b"
      using assms by (simp add: field_simps)
    then show ?thesis by (simp only: of_int_less_iff)
  qed
  have gt: "of_int (a mod b) / (of_int b :: rat) > 1 / 2 \<longleftrightarrow> 2 * (a mod b) > b"
  proof -
    have "1 / 2 < of_int (a mod b) / (of_int b :: rat) \<longleftrightarrow> (of_int b :: rat) < of_int (2 * (a mod b))"
      using assms by (simp add: field_simps)
    then show ?thesis by (simp only: of_int_less_iff)
  qed
  show ?thesis
    unfolding round_even_def Let_def f r lt gt by simp
qed

lemma round_even_numeral_divide [simp]:
  "round_even (numeral a / numeral b) =
     (if 2 * (numeral a mod numeral b) < (numeral b :: int) then numeral a div numeral b
      else if 2 * (numeral a mod numeral b) > (numeral b :: int) then numeral a div numeral b + 1
      else if even (numeral a div numeral b :: int) then numeral a div numeral b
           else numeral a div numeral b + 1)"
  using round_even_divide [of "numeral b" "numeral a"] by simp

lemma floor_numeral_divide [simp]:
  "\<lfloor>numeral a / numeral b :: rat\<rfloor> = numeral a div numeral b"
  using floor_divide_of_int_eq [of "numeral a" "numeral b", where ?'a = rat] by simp

lemma round_even_numeral [simp]: "round_even (numeral a) = numeral a"
  using round_even_of_int [of "numeral a"] by simp

text \<open>Numbers of the source that are exact in binary64, and two literals that are not.\<close>

lemma fl_1: "fl 1 = 1"
  by (subst fl_eval [where e = 0]) simp_all

lemma fl_40: "fl 40 = 40"
  by (subst fl_eval [where e = 5]) simp_all

lemma fl_50: "fl 50 = 50"
  by (subst fl_eval [where e = 5]) simp_all

lemma fl_62: "fl 62 = 62"
  by (subst fl_eval [where e = 5]) simp_all

lemma fl_78: "fl 78 = 78"
  by (subst fl_eval [where e = 6]) simp_all

lemma fl_90: "fl 90 = 90"
  by (subst fl_eval [where e = 6]) simp_all

lemma fl_3_10: "fl (3 / 10) = 5404319552844595 / 18014398509481984"
  by (subst fl_eval [where e = "-2"]) simp_all

lemma fl_7_10: "fl (7 / 10) = 3152519739159347 / 4503599627370496"
  by (subst fl_eval [where e = "-1"]) simp_all

lemma percent_03: "fl (50 + fl (fl (3 / 10) * 40)) = 62"
proof -
  have "fl (3 / 10) * 40 = 27021597764222975 / 2251799813685248"
    unfolding fl_3_10 by simp
  then have "fl (fl (3 / 10) * 40) = fl (27021597764222975 / 2251799813685248)"
    by (rule arg_cong)
  also have "\<dots> = 12"
    by (subst fl_eval [where e = 3]) simp_all
  finally have "50 + fl (fl (3 / 10) * 40) = 62" by simp
  then show ?thesis by (simp only: fl_62)
qed

lemma percent_07: "fl (50 + fl (fl (7 / 10) * 40)) = 78"
proof -
  have "fl (7 / 10) * 40 = 15762598695796735 / 562949953421312"
    unfolding fl_7_10 by simp
  then have "fl (fl (7 / 10) * 40) = fl (15762598695796735 / 562949953421312)"
    by (rule arg_cong)
  also have "\<dots> = 28"
    by (subst fl_eval [where e = 4]) simp_all
  finally have "50 + fl (fl (7 / 10) * 40) = 78" by simp
  then show ?thesis by (simp only: fl_78)
qed

section \<open>Centre to top-left conversion\<close>

lemma is_double_half: "is_double w \<Longrightarrow> fl (w / 2) = w / 2"
  by (simp add: is_double_def fl_half)

lemma back_error:
  assumes h: "fl h = h"
  shows "\<bar>fl (fl (c - h) + h) - c\<bar> \<le> (\<bar>c\<bar> + \<bar>c - h\<bar>) / 2 ^ 52"
proof -
  define a where "a = c - h"
  define x where "x = fl a"
  define b where "b = x + h"
  have xa: "\<bar>x - a\<bar> \<le> \<bar>a\<bar> / 2 ^ 53" unfolding x_def by (rule fl_error)
  have bb: "\<bar>fl b - b\<bar> \<le> \<bar>b\<bar> / 2 ^ 53" by (rule fl_error)
  have bc: "b - c = x - a" by (simp add: b_def a_def)
  have "\<bar>b\<bar> \<le> \<bar>c\<bar> + \<bar>x - a\<bar>" using bc by linarith
  with xa have b1: "\<bar>b\<bar> \<le> \<bar>c\<bar> + \<bar>a\<bar> / 2 ^ 53" by linarith
  have "\<bar>a\<bar> / 2 ^ 53 \<le> \<bar>a\<bar>" by (simp add: field_simps)
  with b1 have "\<bar>b\<bar> \<le> \<bar>c\<bar> + \<bar>a\<bar>" by linarith
  then have "\<bar>b\<bar> / 2 ^ 53 \<le> (\<bar>c\<bar> + \<bar>a\<bar>) / 2 ^ 53" by (rule divide_right_mono) simp
  with bb have b2: "\<bar>fl b - b\<bar> \<le> (\<bar>c\<bar> + \<bar>a\<bar>) / 2 ^ 53" by linarith
  have "\<bar>a\<bar> / 2 ^ 53 \<le> (\<bar>c\<bar> + \<bar>a\<bar>) / 2 ^ 53" by (rule divide_right_mono) simp_all
  with xa have x2: "\<bar>x - a\<bar> \<le> (\<bar>c\<bar> + \<bar>a\<bar>) / 2 ^ 53" by linarith
  have "\<bar>fl b - c\<bar> \<le> \<bar>fl b - b\<bar> + \<bar>x - a\<bar>" using bc by linarith
  with b2 x2 have "\<bar>fl b - c\<bar> \<le> (\<bar>c\<bar> + \<bar>a\<bar>) / 2 ^ 53 + (\<bar>c\<bar> + \<bar>a\<bar>) / 2 ^ 53" by linarith
  also have "\<dots> = (\<bar>c\<bar> + \<bar>a\<bar>) / 2 ^ 52" by simp
  finally show ?thesis by (simp add: b_def x_def a_def)
qed

text \<open>
  C2, as the code has it.  For every raw detection whose centre \<open>(cx, cy)\<close> and size
  \<open>(w, h)\<close> are Numbers, the converted detection has \<open>x = cx - w/2\<close> and
  \<open>y = cy - h/2\<close> rounded to the nearest Number (a relative error of at most 2 to the
  power -53), its width and height are those of the raw detection, and
  \<open>(x + width/2, y + height/2)\<close>, as the renderer computes it, is the centre again up to
  rounding: it differs from \<open>cx\<close> by at most \<open>(|cx| + |cx - w/2|) / 2^52\<close>, and
  likewise for \<open>cy\<close>.
\<close>

theorem toTopLeft_rounded:
  assumes "\<forall>v \<in> set (spatial p). is_double v \<and> in_range v"
  shows "det_x (toTopLeft p) = fl (det_x p - det_width p / 2)
       \<and> det_y (toTopLeft p) = fl (det_y p - det_height p / 2)
       \<and> \<bar>det_x (toTopLeft p) - (det_x p - det_width p / 2)\<bar>
            \<le> \<bar>det_x p - det_width p / 2\<bar> / 2 ^ 53
       \<and> \<bar>det_y (toTopLeft p) - (det_y p - det_height p / 2)\<bar>
            \<le> \<bar>det_y p - det_height p / 2\<bar> / 2 ^ 53
       \<and> det_width (toTopLeft p) = det_width p
       \<and> det_height (toTopLeft p) = det_height p
       \<and> \<bar>centerX (toTopLeft p) - det_x p\<bar>
            \<le> (\<bar>det_x p\<bar> + \<bar>det_x p - det_width p / 2\<bar>) / 2 ^ 52
       \<and> \<bar>centerY (toTopLeft p) - det_y p\<bar>
            \<le> (\<bar>det_y p\<bar> + \<bar>det_y p - det_height p / 2\<bar>) / 2 ^ 52"
proof -
  from assms have w: "fl (det_width p / 2) = det_width p / 2"
    and h: "fl (det_height p / 2) = det_height p / 2"
    by (simp_all add: spatial_def is_double_half)
  have x: "det_x (toTopLeft p) = fl (det_x p - det_width p / 2)"
    and y: "det_y (toTopLeft p) = fl (det_y p - det_height p / 2)"
    by (simp_all add: toTopLeft_def w h)
  have s: "det_width (toTopLeft p) = det_width p" "det_height (toTopLeft p) = det_height p"
    by (simp_all add: toTopLeft_def)
  have cx: "centerX (toTopLeft p) = fl (fl (det_x p - det_width p / 2) + det_width p / 2)"
    and cy: "centerY (toTopLeft p) = fl (fl (det_y p - det_height p / 2) + det_height p / 2)"
    by (simp_all add: centerX_def centerY_def x y s w h)
  show ?thesis
    unfolding cx cy unfolding x y s
    using fl_error [of "det_x p - det_width p / 2"] fl_error [of "det_y p - det_height p / 2"]
      back_error [OF w, of "det_x p"] back_error [OF h, of "det_y p"]
    by (intro conjI) simp_all
qed

text \<open>The prediction with centre \<open>100.3\<close> and width \<open>40.7\<close>, step by step.\<close>

lemma inexact_values:
  "fl (det_width inexactPrediction / 2) = 2864007888030925 / 140737488355328"
  "det_x (toTopLeft inexactPrediction) = 1406495274251059 / 17592186044416"
  "centerX (toTopLeft inexactPrediction) = 3528992520509849 / 35184372088832"
proof -
  show h: "fl (det_width inexactPrediction / 2) = 2864007888030925 / 140737488355328"
    unfolding inexactPrediction_def by simp (subst fl_eval [where e = 4], simp_all)
  have "det_x inexactPrediction - fl (det_width inexactPrediction / 2)
          = 11251962194008473 / 140737488355328"
    unfolding h by (simp add: inexactPrediction_def)
  then have "fl (det_x inexactPrediction - fl (det_width inexactPrediction / 2))
          = fl (11251962194008473 / 140737488355328)" by (rule arg_cong)
  also have "\<dots> = 1406495274251059 / 17592186044416"
    by (subst fl_eval [where e = 6]) simp_all
  finally show x: "det_x (toTopLeft inexactPrediction) = 1406495274251059 / 17592186044416"
    by (simp add: toTopLeft_def)
  have w: "det_width (toTopLeft inexactPrediction) = det_width inexactPrediction"
    by (simp add: toTopLeft_def)
  have "det_x (toTopLeft inexactPrediction) + fl (det_width (toTopLeft inexactPrediction) / 2)
          = 14115970082039397 / 140737488355328"
    unfolding x w h by simp
  then have "fl (det_x (toTopLeft inexactPrediction)
                  + fl (det_width (toTopLeft inexactPrediction) / 2))
          = fl (14115970082039397 / 140737488355328)" by (rule arg_cong)
  also have "\<dots> = 3528992520509849 / 35184372088832"
    by (subst fl_eval [where e = 6]) simp_all
  finally show "centerX (toTopLeft inexactPrediction) = 3528992520509849 / 35184372088832"
    by (simp add: centerX_def)
qed

lemma inexact_doubles:
  "\<forall>v \<in> set (spatial inexactPrediction). is_double v \<and> in_range v"
proof -
  have "fl (7057985041019699 / 70368744177664) = 7057985041019699 / 70368744177664"
    by (subst fl_eval [where e = 6]) simp_all
  moreover have "fl (2864007888030925 / 70368744177664) = 2864007888030925 / 70368744177664"
    by (subst fl_eval [where e = 5]) simp_all
  moreover have "fl 50 = 50" by (rule fl_50)
  moreover have "fl 30 = 30" by (subst fl_eval [where e = 4]) simp_all
  ultimately show ?thesis
    by (simp add: spatial_def inexactPrediction_def is_double_def in_range_def)
qed

theorem toTopLeft_rounded_witness:
  "is_double (det_x inexactPrediction) \<and> is_double (det_width inexactPrediction)
   \<and> det_x (toTopLeft inexactPrediction) = 1406495274251059 / 17592186044416
   \<and> centerX (toTopLeft inexactPrediction) = 3528992520509849 / 35184372088832
   \<and> \<bar>centerX (toTopLeft inexactPrediction) - det_x inexactPrediction\<bar>
        \<le> (\<bar>det_x inexactPrediction\<bar>
            + \<bar>det_x inexactPrediction - det_width inexactPrediction / 2\<bar>) / 2 ^ 52"
proof -
  from inexact_doubles have "is_double (det_x inexactPrediction)"
    and "is_double (det_width inexactPrediction)"
    by (simp_all add: spatial_def)
  with toTopLeft_rounded [OF inexact_doubles] inexact_values show ?thesis by blast
qed

text \<open>
  C2, as stated, fails: for the centre \<open>100.3\<close> and the width \<open>40.7\<close> the converted
  \<open>x\<close> is not \<open>cx - w/2\<close>, and \<open>x + width/2\<close> is not \<open>cx\<close> (the code gives
  \<open>79.94999999999999\<close> and \<open>100.29999999999998\<close>).
\<close>

theorem toTopLeft_inexact:
  "det_x inexactPrediction = fl (1003 / 10)
   \<and> det_width inexactPrediction = fl (407 / 10)
   \<and> det_x (toTopLeft inexactPrediction)
       \<noteq> det_x inexactPrediction - det_width inexactPrediction / 2
   \<and> centerX (toTopLeft inexactPrediction) \<noteq> det_x inexactPrediction"
proof -
  have a: "fl (1003 / 10) = 7057985041019699 / 70368744177664"
    by (subst fl_eval [where e = 6]) simp_all
  have b: "fl (407 / 10) = 2864007888030925 / 70368744177664"
    by (subst fl_eval [where e = 5]) simp_all
  show ?thesis
    unfolding inexact_values a b by (simp add: inexactPrediction_def)
qed

section \<open>Confidence filter\<close>

lemma accepted_count:
  "count_list (accepted ps) p =
     (if CONFIDENCE_THRESHOLD \<le> det_confidence p then count_list ps p else 0)"
  by (induction ps) (auto simp: accepted_def)

lemma accepted_confidences:
  "map det_confidence (map toTopLeft (accepted ps))
     = filter (\<lambda>c. CONFIDENCE_THRESHOLD \<le> c) (map det_confidence ps)"
  by (induction ps) (auto simp: accepted_def toTopLeft_def)

text \<open>
  C3.  The detections of a response are the converted predictions whose confidence is at
  least the threshold \<open>0.50\<close>: they form a subsequence of the predictions (the relative
  order is kept), and each prediction occurs among them as often as among the predictions
  when its confidence reaches the threshold and not at all otherwise.  For ten
  predictions with confidences \<open>0.9, 0.4, 0.5, 0.51, 0.0, 1.0, 0.49, 0.6, 0.3, 0.8\<close>
  the detections have the confidences \<open>0.9, 0.5, 0.51, 1.0, 0.6, 0.8\<close>, in this order.
\<close>

theorem confidence_filter:
  "detectionsOf \<lparr> predictions = Some ps \<rparr> = map toTopLeft (accepted ps)
   \<and> subseq (accepted ps) ps
   \<and> (\<forall>p. count_list (accepted ps) p =
            (if CONFIDENCE_THRESHOLD \<le> det_confidence p then count_list ps p else 0))
   \<and> CONFIDENCE_THRESHOLD = 0.50
   \<and> (map det_confidence ps = [0.9, 0.4, 0.5, 0.51, 0.0, 1.0, 0.49, 0.6, 0.3, 0.8]
        \<longrightarrow> map det_confidence (detectionsOf \<lparr> predictions = Some ps \<rparr>)
            = [0.9, 0.5, 0.51, 1.0, 0.6, 0.8])"
proof -
  have a: "detectionsOf \<lparr> predictions = Some ps \<rparr> = map toTopLeft (accepted ps)"
    by (simp add: detectionsOf_def)
  have b: "subseq (accepted ps) ps"
    by (simp add: accepted_def)
  have c: "CONFIDENCE_THRESHOLD = 0.50"
    by (simp add: CONFIDENCE_THRESHOLD_def)
  have d: "map det_confidence (detectionsOf \<lparr> predictions = Some ps \<rparr>)
             = [0.9, 0.5, 0.51, 1.0, 0.6, 0.8]"
    if "map det_confidence ps = [0.9, 0.4, 0.5, 0.51, 0.0, 1.0, 0.49, 0.6, 0.3, 0.8]"
    unfolding a accepted_confidences that by (simp add: CONFIDENCE_THRESHOLD_def)
  show ?thesis using a b c d accepted_count by blast
qed

theorem confidence_filter_witness:
  "map det_confidence examplePredictions
     = [0.9, 0.4, 0.5, 0.51, 0.0, 1.0, 0.49, 0.6, 0.3, 0.8]
   \<and> detectionsOf \<lparr> predictions = Some examplePredictions \<rparr>
       = map toTopLeft
           [examplePrediction 1 0.9, examplePrediction 3 0.5, examplePrediction 4 0.51,
            examplePrediction 6 1.0, examplePrediction 8 0.6, examplePrediction 10 0.8]
   \<and> map det_confidence (detectionsOf \<lparr> predictions = Some examplePredictions \<rparr>)
       = [0.9, 0.5, 0.51, 1.0, 0.6, 0.8]"
proof -
  have h: "map det_confidence examplePredictions
             = [0.9, 0.4, 0.5, 0.51, 0.0, 1.0, 0.49, 0.6, 0.3, 0.8]"
    by (simp add: examplePredictions_def examplePrediction_def)
  have e: "accepted examplePredictions
             = [examplePrediction 1 0.9, examplePrediction 3 0.5, examplePrediction 4 0.51,
                examplePrediction 6 1.0, examplePrediction 8 0.6, examplePrediction 10 0.8]"
    by (simp add: examplePredictions_def examplePrediction_def accepted_def
        CONFIDENCE_THRESHOLD_def)
  note t = confidence_filter [of examplePredictions]
  from t have c1: "detectionsOf \<lparr> predictions = Some examplePredictions \<rparr>
                     = map toTopLeft (accepted examplePredictions)"
    by (rule conjunct1)
  from t h have c4: "map det_confidence (detectionsOf \<lparr> predictions = Some examplePredictions \<rparr>)
                       = [0.9, 0.5, 0.51, 1.0, 0.6, 0.8]"
    by blast
  from h c1 [unfolded e] c4 show ?thesis by (intro conjI)
qed

section \<open>Mapping detections back to the original image\<close>


lemma roundtrip_error:
  assumes "0 < s"
  shows "\<bar>fl (fl (v / s) * s) - v\<bar> \<le> 3 * \<bar>v\<bar> / 2 ^ 53"
proof -
  define y where "y = fl (v / s)"
  have "\<bar>y - v / s\<bar> \<le> \<bar>v / s\<bar> / 2 ^ 53" unfolding y_def by (rule fl_error)
  then have "\<bar>y - v / s\<bar> * s \<le> \<bar>v / s\<bar> / 2 ^ 53 * s"
    using assms by (intro mult_right_mono) simp_all
  moreover have "\<bar>y - v / s\<bar> * s = \<bar>y * s - v\<bar>"
  proof -
    have "\<bar>y - v / s\<bar> * s = \<bar>y - v / s\<bar> * \<bar>s\<bar>" using assms by simp
    also have "\<dots> = \<bar>(y - v / s) * s\<bar>" by (simp add: abs_mult)
    also have "(y - v / s) * s = y * s - v" using assms by (simp add: field_simps)
    finally show ?thesis .
  qed
  moreover have "\<bar>v / s\<bar> / 2 ^ 53 * s = \<bar>v\<bar> / 2 ^ 53" using assms by (simp add: abs_divide)
  ultimately have e1: "\<bar>y * s - v\<bar> \<le> \<bar>v\<bar> / 2 ^ 53" by simp
  have "\<bar>v\<bar> / 2 ^ 53 \<le> \<bar>v\<bar>" by (simp add: field_simps)
  with e1 have "\<bar>y * s\<bar> \<le> 2 * \<bar>v\<bar>" by linarith
  then have "\<bar>y * s\<bar> / 2 ^ 53 \<le> 2 * \<bar>v\<bar> / 2 ^ 53" by (rule divide_right_mono) simp
  moreover have "\<bar>fl (y * s) - y * s\<bar> \<le> \<bar>y * s\<bar> / 2 ^ 53" by (rule fl_error)
  ultimately have e2: "\<bar>fl (y * s) - y * s\<bar> \<le> 2 * \<bar>v\<bar> / 2 ^ 53" by linarith
  have "\<bar>fl (y * s) - v\<bar> \<le> \<bar>fl (y * s) - y * s\<bar> + \<bar>y * s - v\<bar>" by linarith
  with e1 e2 have "\<bar>fl (y * s) - v\<bar> \<le> 2 * \<bar>v\<bar> / 2 ^ 53 + \<bar>v\<bar> / 2 ^ 53" by linarith
  then show ?thesis by (simp add: y_def)
qed

text \<open>
  The detections that reach the mapping are results of rounded operations, hence
  Numbers.
\<close>

lemma mockDetection_doubles:
  "\<forall>v \<in> set (spatial (mockDetection rnd cv i)). is_double v"
  by (simp add: spatial_def mockDetection_def is_double_def fl_idem)

text \<open>
  C1.  For every scale factor \<open>s\<close> with \<open>0 < s \<le> 1\<close> and every detection whose spatial
  fields are Numbers (of a magnitude such that neither they nor their quotients by \<open>s\<close>
  leave the range of the model), the mapping divides \<open>x\<close>, \<open>y\<close>, \<open>width\<close> and
  \<open>height\<close> by \<open>s\<close>, each quotient rounded to the nearest Number; multiplying a mapped
  field by \<open>s\<close> gives the original value back within a relative error of \<open>3 / 2^53\<close>;
  and for \<open>s = 1\<close> the four fields are unchanged, exactly.
\<close>

theorem scaleDetection_roundtrip:
  assumes "0 < s" and "s \<le> 1"
    and "\<forall>v \<in> set (spatial d). is_double v \<and> in_range v \<and> in_range (v / s)"
  shows "spatial (scaleDetection s d) = map (\<lambda>v. fl (v / s)) (spatial d)
       \<and> list_all2 (\<lambda>m v. \<bar>fl (m * s) - v\<bar> \<le> 3 * \<bar>v\<bar> / 2 ^ 53)
            (spatial (scaleDetection s d)) (spatial d)
       \<and> spatial (scaleDetection 1 d) = spatial d"
proof -
  have a: "spatial (scaleDetection s' d) = map (\<lambda>v. fl (v / s')) (spatial d)" for s'
    by (simp add: spatial_def scaleDetection_def)
  have b: "list_all2 (\<lambda>m v. \<bar>fl (m * s) - v\<bar> \<le> 3 * \<bar>v\<bar> / 2 ^ 53)
            (map (\<lambda>v. fl (v / s)) (spatial d)) (spatial d)"
    using roundtrip_error [OF assms(1)] by (simp add: spatial_def)
  have c: "map (\<lambda>v. fl (v / 1)) (spatial d) = spatial d"
    using assms(3) by (simp add: spatial_def is_double_def)
  show ?thesis using a [of s] b c unfolding a [of 1] by simp
qed

lemma scaleOf_1568_1176: "scaleOf 1568 1176 = 5882252574524729 / 9007199254740992"
proof -
  have a: "fl (32 / 49) = 5882252574524729 / 9007199254740992"
    by (subst fl_eval [where e = "-1"]) simp_all
  have b: "fl (128 / 147) = 7843003432699639 / 9007199254740992"
    by (subst fl_eval [where e = "-1"]) simp_all
  show ?thesis
    by (simp add: scaleOf_def Math_min_def maxProcessingDimension_def a b)
qed

lemma exampleDetection_doubles:
  "\<forall>v \<in> set (spatial exampleDetection).
     is_double v \<and> in_range v \<and> in_range (v / scaleOf 1568 1176)"
proof -
  have "fl 100 = 100" by (subst fl_eval [where e = 6]) simp_all
  moreover have "fl 30 = 30" by (subst fl_eval [where e = 4]) simp_all
  ultimately show ?thesis
    unfolding scaleOf_1568_1176
    by (simp add: spatial_def exampleDetection_def is_double_def in_range_def fl_50 fl_40)
qed

lemma exampleDetection_width:
  "det_width (scaleDetection (scaleOf 1568 1176) exampleDetection)
     = 6465128371322881 / 140737488355328"
proof -
  have "30 / scaleOf 1568 1176 = (270215977642229760 / 5882252574524729 :: rat)"
    unfolding scaleOf_1568_1176 by simp
  then have "fl (30 / scaleOf 1568 1176) = fl (270215977642229760 / 5882252574524729)"
    by (rule arg_cong)
  also have "\<dots> = 6465128371322881 / 140737488355328"
    by (subst fl_eval [where e = 5]) simp_all
  finally show ?thesis
    by (simp add: scaleDetection_def exampleDetection_def)
qed

theorem scaleDetection_roundtrip_witness:
  "0 < scaleOf 1568 1176 \<and> scaleOf 1568 1176 \<le> 1
   \<and> is_double (det_width exampleDetection)
   \<and> in_range (det_width exampleDetection / scaleOf 1568 1176)
   \<and> det_width (scaleDetection (scaleOf 1568 1176) exampleDetection)
       = 6465128371322881 / 140737488355328
   \<and> \<bar>fl (det_width (scaleDetection (scaleOf 1568 1176) exampleDetection)
            * scaleOf 1568 1176) - 30\<bar> \<le> 3 * 30 / 2 ^ 53
   \<and> spatial (scaleDetection 1 exampleDetection) = [100, 50, 30, 40]"
proof -
  have p: "0 < scaleOf 1568 1176" and q: "scaleOf 1568 1176 \<le> 1"
    unfolding scaleOf_1568_1176 by simp_all
  note t = scaleDetection_roundtrip [OF p q exampleDetection_doubles]
  from t have "list_all2 (\<lambda>m v. \<bar>fl (m * scaleOf 1568 1176) - v\<bar> \<le> 3 * \<bar>v\<bar> / 2 ^ 53)
            (spatial (scaleDetection (scaleOf 1568 1176) exampleDetection))
            (spatial exampleDetection)" by blast
  then have e: "\<bar>fl (det_width (scaleDetection (scaleOf 1568 1176) exampleDetection)
            * scaleOf 1568 1176) - 30\<bar> \<le> 3 * 30 / 2 ^ 53"
    by (simp add: spatial_def exampleDetection_def)
  from t have "spatial (scaleDetection 1 exampleDetection) = spatial exampleDetection" by blast
  then have i: "spatial (scaleDetection 1 exampleDetection) = [100, 50, 30, 40]"
    by (simp add: spatial_def exampleDetection_def)
  from exampleDetection_doubles have d: "is_double (det_width exampleDetection)"
    and r: "in_range (det_width exampleDetection / scaleOf 1568 1176)"
    by (simp_all add: spatial_def)
  from p q d r exampleDetection_width e i show ?thesis by (intro conjI)
qed

text \<open>
  The product with the scale does not give the width back exactly: a width of 30 on the
  canvas of a 1568 by 1176 image is mapped to \<open>45.93750000000001\<close> and back to
  \<open>30.000000000000004\<close>.
\<close>

lemma scaleDetection_not_exact:
  "fl (det_width (scaleDetection (scaleOf 1568 1176) exampleDetection) * scaleOf 1568 1176)
     = 8444249301319681 / 281474976710656"
proof -
  have "6465128371322881 / 140737488355328 * scaleOf 1568 1176
          = (38029518006846884892501578024249 / 1267650600228229401496703205376 :: rat)"
    unfolding scaleOf_1568_1176 by simp
  then have "fl (6465128371322881 / 140737488355328 * scaleOf 1568 1176)
          = fl (38029518006846884892501578024249 / 1267650600228229401496703205376)"
    by (rule arg_cong)
  also have "\<dots> = 8444249301319681 / 281474976710656"
    by (subst fl_eval [where e = 4]) simp_all
  finally show ?thesis unfolding exampleDetection_width .
qed

text \<open>
  C9.  Every detection that reaches the mapping back to the original image, that is
  every detection the detector of that pipeline returns, comes out with its confidence
  and its class label as they went in; and the centre to top-left conversion of the hosted
  pipeline copies the confidence and the class label of every prediction.
\<close>

theorem passthrough_fields:
  "(d \<in> set (snd (runPillDetection rnd cv)) \<longrightarrow>
      det_confidence (scaleDetection s d) = det_confidence d
      \<and> det_class (scaleDetection s d) = det_class d)
   \<and> det_confidence (toTopLeft p) = det_confidence p
   \<and> det_class (toTopLeft p) = det_class p"
  by (auto simp: runPillDetection_def Let_def mockDetection_def scaleDetection_def
      toTopLeft_def)

theorem passthrough_fields_witness:
  "mockDetection (random exampleBrowser) (processedCanvas ''blob:example'' 3024 4032) 0
     \<in> set (snd (runPillDetection (random exampleBrowser)
                  (processedCanvas ''blob:example'' 3024 4032)))
   \<and> det_class (scaleDetection (scaleOf 3024 4032)
        (mockDetection (random exampleBrowser) (processedCanvas ''blob:example'' 3024 4032) 0))
       = det_class
           (mockDetection (random exampleBrowser) (processedCanvas ''blob:example'' 3024 4032) 0)
   \<and> det_confidence (scaleDetection (scaleOf 3024 4032)
        (mockDetection (random exampleBrowser) (processedCanvas ''blob:example'' 3024 4032) 0))
       = det_confidence
           (mockDetection (random exampleBrowser) (processedCanvas ''blob:example'' 3024 4032) 0)"
proof -
  have m: "mockDetection (random exampleBrowser) (processedCanvas ''blob:example'' 3024 4032) 0
     \<in> set (snd (runPillDetection (random exampleBrowser)
                  (processedCanvas ''blob:example'' 3024 4032)))"
    by (simp add: runPillDetection_def exampleBrowser_def Let_def)
  from m passthrough_fields
    [of "mockDetection (random exampleBrowser) (processedCanvas ''blob:example'' 3024 4032) 0"
      "random exampleBrowser" "processedCanvas ''blob:example'' 3024 4032" "scaleOf 3024 4032"]
  show ?thesis by blast
qed

section \<open>Downscaling\<close>

text \<open>Whenever a resize is needed, the scale of the validator is a finite number.\<close>

lemma resizeWithin_finite:
  "width > m \<or> height > m \<Longrightarrow>
   Math_min [js_div (of_nat m) width, js_div (of_nat m) height] \<noteq> Infinity"
  by (auto simp: Math_min_def)











text \<open>
  The floor is taken of the rounded product: a 1568 by 1176 image, whose exact products
  would be 1024 and 768, gets a canvas of 1023 by 767, and the validator turns 4488 by
  3366 into 4095 by 3072.
\<close>

lemma processedCanvas_1568_1176:
  "processedCanvas url 1568 1176
     = \<lparr> canvas_width = 1023, canvas_height = 767, canvas_image = url \<rparr>"
proof -
  have a: "fl (288230376151711721 / 281474976710656) = 9007199254740991 / 8796093022208"
    by (subst fl_eval [where e = 9]) simp_all
  have b: "fl (864691128455135163 / 1125899906842624) = 6755399441055743 / 8796093022208"
    by (subst fl_eval [where e = 9]) simp_all
  show ?thesis
    by (simp add: processedCanvas_def scaleOf_1568_1176 a b)
qed

lemma resizeWithin_4488_3366: "resizeWithin 4096 4488 3366 = (4095, 3072)"
proof -
  have a: "fl (512 / 561) = 2055118546536269 / 2251799813685248"
    by (subst fl_eval [where e = "-1"]) simp_all
  have b: "fl (2048 / 1683) = 2740158062048359 / 2251799813685248"
    by (subst fl_eval [where e = 0]) simp_all
  have c: "fl (1152921504606846909 / 281474976710656) = 9007199254740991 / 2199023255552"
    by (subst fl_eval [where e = 11]) simp_all
  have d: "fl (3458764513820540727 / 1125899906842624) = 3072"
    by (subst fl_eval [where e = 11]) simp_all
  show ?thesis
    by (simp add: resizeWithin_def Math_min_def MAX_DIMENSION_def a b c d)
qed

section \<open>The image validator\<close>

text \<open>
  C6.  The validator fails with the too-large error exactly when the byte size of the
  file exceeds the limit of 10 MB (10485760 bytes), and in that case it has made no call
  on the browser at all: no object URL, no timer, no decoding, whatever the browser
  would have done.
\<close>

theorem tooLarge_iff:
  "(snd (validateAndCompressImage b f) = Inl TooLarge) = (file_size f > MAX_FILE_SIZE)
   \<and> MAX_FILE_SIZE = 10485760
   \<and> (file_size f > MAX_FILE_SIZE \<longrightarrow> validateAndCompressImage b f = ([], Inl TooLarge))"
  by (simp add: validateAndCompressImage_def TooLarge_def MAX_FILE_SIZE_def Let_def
      split: load_outcome.splits option.splits prod.splits)

theorem tooLarge_iff_witness:
  "file_size oversizedPhoto > MAX_FILE_SIZE
   \<and> validateAndCompressImage exampleBrowser oversizedPhoto = ([], Inl TooLarge)
   \<and> \<not> file_size examplePhoto > MAX_FILE_SIZE
   \<and> snd (validateAndCompressImage exampleBrowser examplePhoto) \<noteq> Inl TooLarge"
proof -
  have a: "file_size oversizedPhoto > MAX_FILE_SIZE"
    by (simp add: oversizedPhoto_def MAX_FILE_SIZE_def)
  have b: "\<not> file_size examplePhoto > MAX_FILE_SIZE"
    by (simp add: examplePhoto_def MAX_FILE_SIZE_def)
  show ?thesis
    using a b tooLarge_iff [of exampleBrowser oversizedPhoto]
      tooLarge_iff [of exampleBrowser examplePhoto]
    by blast
qed

text \<open>
  C5, as the code has it.  For a file within the byte limit whose image decodes with
  width and height both within the maximum dimension, the validator does not resize: it
  draws the image on a canvas of the image's own width and height.  It still encodes
  that canvas as JPEG at quality 0.92, and its result is a new file with the name of the
  input, the type \<open>image/jpeg\<close> and the bytes of the encoder, or the error
  \<open>Failed to compress image\<close> when the encoder yields nothing.
\<close>

theorem validate_within_limits:
  assumes "file_size f \<le> MAX_FILE_SIZE"
    and "loadImage b (createObjectURL b f) = Loaded w h"
    and "w \<le> MAX_DIMENSION" and "h \<le> MAX_DIMENSION"
  shows "fst (validateAndCompressImage b f)
           = [SetTimeout 30000, CreateObjectURL, ClearTimeout, DrawImage w h,
              ToBlob ''image/jpeg'' 0.92, RevokeObjectURL]
       \<and> snd (validateAndCompressImage b f)
           = (case toBlob b \<lparr> canvas_width = w, canvas_height = h,
                               canvas_image = createObjectURL b f \<rparr> ''image/jpeg'' 0.92 of
                None \<Rightarrow> Inl (Error ''Failed to compress image'')
              | Some blob \<Rightarrow>
                  Inr \<lparr> file_name = file_name f, file_size = length blob,
                        file_type = ''image/jpeg'', file_lastModified = now b,
                        file_bytes = blob \<rparr>)"
  using assms
  by (simp add: validateAndCompressImage_def resizeWithin_def Let_def split: option.splits)

theorem validate_within_limits_witness:
  "file_size examplePhoto \<le> MAX_FILE_SIZE
   \<and> loadImage exampleBrowser (createObjectURL exampleBrowser examplePhoto) = Loaded 3024 4032
   \<and> 3024 \<le> MAX_DIMENSION \<and> 4032 \<le> MAX_DIMENSION
   \<and> fst (validateAndCompressImage exampleBrowser examplePhoto)
        = [SetTimeout 30000, CreateObjectURL, ClearTimeout, DrawImage 3024 4032,
           ToBlob ''image/jpeg'' 0.92, RevokeObjectURL]
   \<and> snd (validateAndCompressImage exampleBrowser examplePhoto)
        = Inr \<lparr> file_name = ''photo.png'', file_size = 3, file_type = ''image/jpeg'',
                file_lastModified = 1700000000000, file_bytes = [255, 216, 255] \<rparr>"
proof -
  have a: "file_size examplePhoto \<le> MAX_FILE_SIZE"
    by (simp add: examplePhoto_def MAX_FILE_SIZE_def)
  have l: "loadImage exampleBrowser (createObjectURL exampleBrowser examplePhoto)
             = Loaded 3024 4032"
    by (simp add: exampleBrowser_def)
  have w: "3024 \<le> MAX_DIMENSION" and h: "4032 \<le> MAX_DIMENSION"
    by (simp_all add: MAX_DIMENSION_def)
  have t: "toBlob exampleBrowser c m q = Some [255, 216, 255]" for c m q
    by (simp add: exampleBrowser_def)
  have n: "now exampleBrowser = 1700000000000" "file_name examplePhoto = ''photo.png''"
    by (simp_all add: exampleBrowser_def examplePhoto_def)
  show ?thesis
    using validate_within_limits [OF a l w h] a l w h by (simp add: t n)
qed

text \<open>
  C5, as stated, fails: a PNG photograph of 3024 by 4032 pixels, within the maximum
  dimension of 4096, is not returned as it came in, and the encoder has been called.
\<close>

theorem validate_reencodes:
  "loadImage exampleBrowser (createObjectURL exampleBrowser examplePhoto) = Loaded 3024 4032
   \<and> 3024 \<le> MAX_DIMENSION \<and> 4032 \<le> MAX_DIMENSION
   \<and> snd (validateAndCompressImage exampleBrowser examplePhoto) \<noteq> Inr examplePhoto
   \<and> ToBlob ''image/jpeg'' 0.92
       \<in> set (fst (validateAndCompressImage exampleBrowser examplePhoto))"
  by (simp add: validateAndCompressImage_def resizeWithin_def exampleBrowser_def
      examplePhoto_def MAX_FILE_SIZE_def MAX_DIMENSION_def)

section \<open>Progress reports\<close>

lemma report_percents:
  "map fst (concat (map (\<lambda>p. report cb (g p) m) ps)) = (if cb then map g ps else [])"
  by (induction ps) (auto simp: report_def)

text \<open>
  The percentages one run of the hosted pipeline delivers: a prefix of the full
  sequence, cut where the run fails.
\<close>

lemma processAndDisplayImage_percents:
  "map fst (fst (processAndDisplayImage b f cb))
     \<in> (if cb then {[10], [10, 30], [10, 30, 50, 62], [10, 30, 50, 62, 78],
                     [10, 30, 50, 62, 78, 90, 90, 100]}
         else {[]})"
  by (simp add: processAndDisplayImage_def report_def callRoboflowAPI_def Let_def
      percent_03 percent_07 fl_40 fl_90
      split: load_outcome.splits sum.splits fetch_outcome.splits response_body.splits)

lemma fractions_sorted:
  "sorted (map (\<lambda>i. fl ((of_nat i + 1) / (of_int n :: rat))) [0..<nat n])"
proof -
  have "sorted_wrt (\<lambda>i j. fl ((of_nat i + 1) / (of_int n :: rat))
                        \<le> fl ((of_nat j + 1) / of_int n)) [0..<nat n]"
  proof (rule sorted_wrt_mono_rel [where P = "(\<le>)"])
    fix i j :: nat
    assume "i \<in> set [0..<nat n]" and "i \<le> j"
    then have "0 \<le> (of_int n :: rat)" by simp
    with \<open>i \<le> j\<close> have "(of_nat i + 1) / of_int n \<le> ((of_nat j + 1) / of_int n :: rat)"
      by (intro divide_right_mono) simp_all
    then show "fl ((of_nat i + 1) / of_int n) \<le> fl ((of_nat j + 1) / of_int n)"
      by (rule fl_mono)
  next
    show "sorted_wrt (\<le>) [0..<nat n]" by simp
  qed
  then show ?thesis by (simp add: sorted_map)
qed

lemma fractions_range:
  assumes "p \<in> set (map (\<lambda>i. fl ((of_nat i + 1) / (of_int n :: rat))) [0..<nat n])"
  shows "0 \<le> p \<and> p \<le> 1"
proof -
  from assms obtain i where i: "i < nat n" and p: "p = fl ((of_nat i + 1) / (of_int n :: rat))"
    by auto
  from i have n: "0 < n" by simp
  have "0 \<le> (of_nat i + 1) / (of_int n :: rat)" using n by simp
  then have lo: "0 \<le> p" unfolding p by (rule fl_nonneg)
  have "int i + 1 \<le> n" using i by simp
  then have "(of_int (int i + 1) :: rat) \<le> of_int n" by (simp only: of_int_le_iff)
  then have "(of_nat i + 1) / (of_int n :: rat) \<le> 1" using n by simp
  then have "p \<le> fl 1" unfolding p by (rule fl_mono)
  with lo show ?thesis by (simp add: fl_1)
qed

text \<open>The percentage reported for a fraction \<open>p\<close> of the detector's work.\<close>

lemma detecting_mono:
  assumes "p \<le> q"
  shows "fl (50 + fl (p * fl (2 / 5))) \<le> fl (50 + fl (q * fl (2 / 5)))"
proof -
  have "0 \<le> fl (2 / 5)" by (rule fl_nonneg) simp
  with assms have "p * fl (2 / 5) \<le> q * fl (2 / 5)" by (rule mult_right_mono)
  then have "fl (p * fl (2 / 5)) \<le> fl (q * fl (2 / 5))" by (rule fl_mono)
  then have "50 + fl (p * fl (2 / 5)) \<le> 50 + fl (q * fl (2 / 5))" by simp
  then show ?thesis by (rule fl_mono)
qed

lemma detecting_range:
  assumes "0 \<le> p" and "p \<le> 1"
  shows "50 \<le> fl (50 + fl (p * fl (2 / 5))) \<and> fl (50 + fl (p * fl (2 / 5))) \<le> 90"
proof -
  have c0: "0 \<le> fl (2 / 5)" by (rule fl_nonneg) simp
  have "fl (2 / 5) \<le> fl 1" by (rule fl_mono) simp
  then have c1: "fl (2 / 5) \<le> 1" by (simp add: fl_1)
  have "0 \<le> p * fl (2 / 5)" using assms c0 by simp
  then have lo: "0 \<le> fl (p * fl (2 / 5))" by (rule fl_nonneg)
  have "p * fl (2 / 5) \<le> 1 * 1" using assms c0 c1 by (intro mult_mono) simp_all
  then have "fl (p * fl (2 / 5)) \<le> fl 1" by (intro fl_mono) simp
  then have hi: "fl (p * fl (2 / 5)) \<le> 1" by (simp add: fl_1)
  have "fl 50 \<le> fl (50 + fl (p * fl (2 / 5)))" using lo by (intro fl_mono) simp
  moreover have "fl (50 + fl (p * fl (2 / 5))) \<le> fl 90" using hi by (intro fl_mono) simp
  ultimately show ?thesis by (simp add: fl_50 fl_90)
qed

lemma detecting_sorted:
  fixes ps :: "rat list"
  assumes s: "sorted ps" and r: "\<And>p. p \<in> set ps \<Longrightarrow> 0 \<le> p \<and> p \<le> 1"
  shows "sorted ([10, 30, 50] @ map (\<lambda>p. fl (50 + fl (p * fl (2 / 5)))) ps @ [90, 100])"
proof -
  have m: "sorted (map (\<lambda>p. fl (50 + fl (p * fl (2 / 5)))) ps)"
    using s by (induction ps) (auto intro: detecting_mono)
  have b: "50 \<le> q \<and> q \<le> 90" if "q \<in> set (map (\<lambda>p. fl (50 + fl (p * fl (2 / 5)))) ps)" for q
  proof -
    from that obtain p where p: "p \<in> set ps" and q: "q = fl (50 + fl (p * fl (2 / 5)))" by auto
    from r [OF p] show ?thesis unfolding q by (intro detecting_range) simp_all
  qed
  show ?thesis
    using m b by (fastforce simp: sorted_append)
qed

lemma runPillDetection_progress:
  "\<exists>n. fst (runPillDetection rnd cv)
         = map (\<lambda>i. fl ((of_nat i + 1) / of_int n)) [0..<nat n]"
  unfolding runPillDetection_def Let_def fst_conv by (rule exI) (rule refl)

lemma processAndDisplayImage_files_percents:
  "map fst (fst (processAndDisplayImage_files b f cb))
     \<in> (if cb then {[10], [10, 30, 50] @ map (\<lambda>p. fl (50 + fl (p * fl (2 / 5))))
                        (fst (runPillDetection (random b)
                           (case loadImage b (createObjectURL b f) of
                              Loaded w h \<Rightarrow> processedCanvas (createObjectURL b f) w h)))
                        @ [90, 100]}
         else {[]})"
  by (simp add: processAndDisplayImage_files_def Let_def report_percents split_beta
      split: load_outcome.splits) (simp add: report_def)

text \<open>
  C7.  In every run of the pipeline, whatever its outcome, the percentages delivered to
  the caller's progress callback form a non-decreasing sequence.  This holds for the
  hosted pipeline and for the pipeline with local downscaling (and trivially when the
  caller gave no callback).
\<close>

theorem progress_nondecreasing:
  "sorted (map fst (fst (processAndDisplayImage b f cb)))
   \<and> sorted (map fst (fst (processAndDisplayImage_files b f cb)))"
proof
  show "sorted (map fst (fst (processAndDisplayImage b f cb)))"
    using processAndDisplayImage_percents [of b f cb] by (auto split: if_splits)
next
  define ps where "ps = fst (runPillDetection (random b)
                           (case loadImage b (createObjectURL b f) of
                              Loaded w h \<Rightarrow> processedCanvas (createObjectURL b f) w h))"
  obtain n where n: "ps = map (\<lambda>i. fl ((of_nat i + 1) / of_int n)) [0..<nat n]"
    unfolding ps_def using runPillDetection_progress by blast
  have "sorted ([10, 30, 50] @ map (\<lambda>p. fl (50 + fl (p * fl (2 / 5)))) ps @ [90, 100])"
  proof (rule detecting_sorted)
    show "sorted ps" unfolding n by (rule fractions_sorted)
    show "0 \<le> p \<and> p \<le> 1" if "p \<in> set ps" for p
      using that unfolding n by (rule fractions_range)
  qed
  then show "sorted (map fst (fst (processAndDisplayImage_files b f cb)))"
    using processAndDisplayImage_files_percents [of b f cb]
    unfolding ps_def by (auto split: if_splits)
qed

theorem progress_nondecreasing_witness:
  "map fst (fst (processAndDisplayImage exampleBrowser examplePhoto True))
     = [10, 30, 50, 62, 78, 90, 90, 100]
   \<and> sorted (map fst (fst (processAndDisplayImage exampleBrowser examplePhoto True)))
   \<and> sorted (map fst (fst (processAndDisplayImage_files exampleBrowser examplePhoto True)))"
proof -
  have e: "map fst (fst (processAndDisplayImage exampleBrowser examplePhoto True))
             = [10, 30, 50, 62, 78, 90, 90, 100]"
    by (simp add: processAndDisplayImage_def fileToBase64_def callRoboflowAPI_def
        report_def exampleBrowser_def Let_def percent_03 percent_07 fl_40 fl_90)
  from e progress_nondecreasing [of exampleBrowser examplePhoto True]
  show ?thesis by (intro conjI) blast+
qed

text \<open>
  The progress states of the application during one capture are another matter: the
  handler sets 0 and, after validation, 20 itself, and only then passes the pipeline's
  deliveries on, the first of which is 10.
\<close>

lemma handleImageCapture_progress_example:
  "map fst (handleImageCapture_progress exampleBrowser examplePhoto)
     = [0, 20, 10, 30, 50, 62, 78, 90, 90, 100]"
  by (simp add: handleImageCapture_progress_def validateAndCompressImage_def
      processAndDisplayImage_def fileToBase64_def callRoboflowAPI_def report_def
      resizeWithin_def
      exampleBrowser_def examplePhoto_def MAX_FILE_SIZE_def MAX_DIMENSION_def Let_def
      percent_03 percent_07 fl_40 fl_90)

section \<open>The result object\<close>

text \<open>
  C10.  In every result object of a successful run, of either pipeline, \<open>pillCount\<close> is
  the length of the \<open>detections\<close> sequence of the same object.
\<close>

theorem pillCount_length:
  "(snd (processAndDisplayImage b f cb) = Inr r \<longrightarrow> pillCount r = length (detections r))
   \<and> (snd (processAndDisplayImage_files b f cb) = Inr r' \<longrightarrow>
        pillCount r' = length (detections r'))"
  by (auto simp: processAndDisplayImage_def processAndDisplayImage_files_def Let_def
      split: load_outcome.splits option.splits sum.splits prod.splits)

theorem pillCount_length_witness:
  "(case snd (processAndDisplayImage exampleBrowser examplePhoto True) of
      Inl e \<Rightarrow> False
    | Inr r \<Rightarrow> pillCount r = 6 \<and> length (detections r) = 6)
   \<and> (case snd (processAndDisplayImage_files exampleBrowser examplePhoto True) of
        Inl e \<Rightarrow> False
      | Inr r \<Rightarrow> pillCount r = 5 \<and> length (detections r) = 5)"
proof -
  obtain r where r: "snd (processAndDisplayImage exampleBrowser examplePhoto True) = Inr r"
    and c: "pillCount r = 6"
    by (simp add: processAndDisplayImage_def fileToBase64_def callRoboflowAPI_def
        exampleBrowser_def detectionsOf_def accepted_def examplePredictions_def examplePrediction_def
        CONFIDENCE_THRESHOLD_def Let_def)
  obtain r' where r': "snd (processAndDisplayImage_files exampleBrowser examplePhoto True) = Inr r'"
    and c': "pillCount r' = 5"
    by (simp add: processAndDisplayImage_files_def runPillDetection_def exampleBrowser_def
        Let_def)
  from pillCount_length [of exampleBrowser examplePhoto True r r'] r r'
  have "pillCount r = length (detections r)" and "pillCount r' = length (detections r')"
    by blast+
  with r r' c c' show ?thesis by simp
qed

end
